theory Spec2Isabelle
  imports Main
begin

section \<open>The DocumentManager of lib/documentmanager.js\<close>

text \<open>
  The manager keeps three dictionaries indexed by document ID: the up-to-date Document
  objects, the deferreds of the documents under construction, and the change queues.
  Every method runs to completion as one reaction of the event loop; the reactions are
  \<^item> a client's call of \<open>getDocument\<close>,
  \<^item> an \<open>imageChanged\<close> event, delivered to \<open>_handleImageChanged\<close>,
  \<^item> the two callbacks \<open>_resetDocument\<close> passes to \<open>done\<close>, run when the request
    started by \<open>_getEntireDocument\<close> is fulfilled or rejected,
  \<^item> the listener \<open>_resetDocument\<close> registers for a Document's \<open>closed\<close> event.

  Objects with an identity live in two stores of the state: the deferreds made by
  \<open>Q.defer()\<close> and the Document objects. A reference is the index of the object in its
  store. Document IDs are integers.

  The Document class and the generator are outside the module. \<open>_applyChange\<close> is a
  parameter \<open>ap\<close> of the model: it returns the truth value of the call and the content
  of the Document after it. The answer to a request and the emission of \<open>closed\<close> by a
  Document are events of the environment, each handled in a reaction of its own.
  \<open>_resetDocument\<close> deletes a Document from \<open>_documents\<close> and never removes its
  listener, so every Document made so far can emit \<open>closed\<close>.
\<close>

type_synonym key = int
type_synonym doc_ref = nat
type_synonym deferred_ref = nat

text \<open>A raw change description: its \<open>id\<close> property (absent or a number) and the rest.\<close>

record 'p change =
  change_id :: "int option"
  payload :: 'p

text \<open>
  A deferred of Q is pending until it is resolved or rejected once; \<open>resolve\<close> takes
  whatever \<open>this._documents[id]\<close> holds (\<open>None\<close> is \<open>undefined\<close>), \<open>reject\<close> an optional
  reason.
\<close>

datatype 'e promise_state = Pending | Fulfilled "doc_ref option" | Rejected "'e option"

datatype ('p, 'e) log_entry =
    Warn_unknown_document "'p change"
  | Error_failed_to_get 'e
  | Debug_applying "'p change"
  | Warn_unable_to_apply

datatype error = TypeError

text \<open>What \<open>getDocument\<close> returns: the promise of a deferred, or \<open>new Q(document)\<close>.\<close>

datatype future = Promise_of deferred_ref | Resolved_with doc_ref

text \<open>
  A Document object: the ID its \<open>closed\<close> listener is bound to, its content, and the
  arguments of the calls of \<open>_applyChange\<close> made on it, oldest first.
\<close>

record ('d, 'p) document =
  listener_id :: key
  content :: 'd
  applied :: "'p change list"

text \<open>
  \<open>objects\<close> holds the Documents made so far; \<open>fetches\<close> holds the IDs of the requests
  of \<open>_getEntireDocument\<close> not yet answered, in the order they were started;
  \<open>logger\<close> holds the records written.
\<close>

record ('d, 'p, 'e) manager =
  documents :: "key \<rightharpoonup> doc_ref"
  documentDeferreds :: "key \<rightharpoonup> deferred_ref"
  documentChanges :: "key \<rightharpoonup> 'p change list"
  promises :: "'e promise_state list"
  objects :: "('d, 'p) document list"
  fetches :: "key list"
  logger :: "('p, 'e) log_entry list"

definition DocumentManager :: "('d, 'p, 'e) manager" where
  "DocumentManager =
     \<lparr>documents = Map.empty, documentDeferreds = Map.empty, documentChanges = Map.empty,
      promises = [], objects = [], fetches = [], logger = []\<rparr>"

subsection \<open>Deferreds and Document objects\<close>

definition Q_defer :: "('d, 'p, 'e) manager \<Rightarrow> deferred_ref \<times> ('d, 'p, 'e) manager" where
  "Q_defer s = (length (promises s), s\<lparr>promises := promises s @ [Pending]\<rparr>)"

text \<open>\<open>deferred.resolve\<close> and \<open>deferred.reject\<close>: a settled deferred stays as it is.\<close>

definition settle ::
  "deferred_ref \<Rightarrow> 'e promise_state \<Rightarrow> ('d, 'p, 'e) manager \<Rightarrow> ('d, 'p, 'e) manager" where
  "settle r v s =
     (if r < length (promises s) \<and> promises s ! r = Pending
      then s\<lparr>promises := (promises s)[r := v]\<rparr> else s)"

definition deref :: "('d, 'p, 'e) manager \<Rightarrow> doc_ref \<Rightarrow> ('d, 'p) document option" where
  "deref s r = (if r < length (objects s) then Some (objects s ! r) else None)"

text \<open>\<open>!id\<close> for the \<open>id\<close> property of a change: \<open>undefined\<close> and \<open>0\<close> are falsy.\<close>

fun falsy :: "int option \<Rightarrow> bool" where
  "falsy None = True"
| "falsy (Some n) = (n = 0)"

subsection \<open>The methods\<close>

text \<open>
  \<open>_resetDocument\<close>, the part that runs at once: the queue becomes a new empty array,
  the Document is deleted and the request is started. Its callbacks are
  \<open>fetch_done\<close> and \<open>fetch_failed\<close> below.
\<close>

definition resetDocument :: "key \<Rightarrow> ('d, 'p, 'e) manager \<Rightarrow> ('d, 'p, 'e) manager" where
  "resetDocument k s =
     s\<lparr>documentChanges := (documentChanges s)(k \<mapsto> []),
       documents := (documents s)(k := None),
       fetches := fetches s @ [k]\<rparr>"

definition initDocument ::
  "key \<Rightarrow> ('d, 'p, 'e) manager \<Rightarrow> deferred_ref \<times> ('d, 'p, 'e) manager" where
  "initDocument k s =
     (let (deferred, s1) = Q_defer s;
          s2 = s1\<lparr>documentDeferreds := (documentDeferreds s1)(k \<mapsto> deferred)\<rparr>
      in (deferred, resetDocument k s2))"

text \<open>
  \<open>_processNextChange\<close>. \<open>changes.shift()\<close> takes the head of the queue; the debug
  record is written before \<open>document._applyChange(change)\<close> is called, and calling it on
  \<open>undefined\<close> throws.
\<close>

function processNextChange ::
  "('d \<Rightarrow> 'p change \<Rightarrow> bool \<times> 'd) \<Rightarrow> key \<Rightarrow> ('d, 'p, 'e) manager
     \<Rightarrow> error + ('d, 'p, 'e) manager" where
  "processNextChange ap k s =
     (case documentChanges s k of
        None \<Rightarrow> Inr s
      | Some changes \<Rightarrow>
          (case documentDeferreds s k of
             None \<Rightarrow> Inr s
           | Some deferred \<Rightarrow>
               (case changes of
                  [] \<Rightarrow>
                    Inr ((settle deferred (Fulfilled (documents s k)) s)
                           \<lparr>documentDeferreds := (documentDeferreds s)(k := None)\<rparr>)
                | change # rest \<Rightarrow>
                    (case Option.bind (documents s k) (deref s) of
                       None \<Rightarrow> Inl TypeError
                     | Some document \<Rightarrow>
                         (let r = the (documents s k);
                              (success, d') = ap (content document) change;
                              s1 = s\<lparr>documentChanges := (documentChanges s)(k \<mapsto> rest),
                                     logger := logger s @ [Debug_applying change],
                                     objects := (objects s)
                                       [r := document\<lparr>content := d',
                                               applied := applied document @ [change]\<rparr>]\<rparr>
                          in if \<not> success
                             then Inr (resetDocument k
                                    (s1\<lparr>logger := logger s1 @ [Warn_unable_to_apply]\<rparr>))
                             else processNextChange ap k s1)))))"
  by pat_completeness auto
termination
  by (relation "measure (\<lambda>(ap, k, s). case documentChanges s k of None \<Rightarrow> 0 | Some cs \<Rightarrow> length cs)")
     auto

declare processNextChange.simps [simp del]

text \<open>\<open>_handleImageChanged\<close>; \<open>changes.push(change)\<close> returns the new length.\<close>

definition handleImageChanged ::
  "('d \<Rightarrow> 'p change \<Rightarrow> bool \<times> 'd) \<Rightarrow> 'p change \<Rightarrow> ('d, 'p, 'e) manager
     \<Rightarrow> error + ('d, 'p, 'e) manager" where
  "handleImageChanged ap change s =
     (if falsy (change_id change)
      then Inr (s\<lparr>logger := logger s @ [Warn_unknown_document change]\<rparr>)
      else
        (let k = the (change_id change) in
         if documentDeferreds s k = None \<and> documents s k = None then Inr s
         else
           (let s1 = (if documentChanges s k = None
                      then s\<lparr>documentChanges := (documentChanges s)(k \<mapsto> [])\<rparr> else s);
                changes = the (documentChanges s1 k) @ [change];
                s2 = s1\<lparr>documentChanges := (documentChanges s1)(k \<mapsto> changes)\<rparr>;
                pendingChanges = length changes
            in if pendingChanges = 1 \<and> documentDeferreds s2 k = None
               then
                 (if documents s2 k \<noteq> None
                  then
                    (let (deferred, s3) = Q_defer s2
                     in processNextChange ap k
                          (s3\<lparr>documentDeferreds := (documentDeferreds s3)(k \<mapsto> deferred)\<rparr>))
                  else Inr (snd (initDocument k s2)))
               else Inr s2)))"

definition getDocument :: "key \<Rightarrow> ('d, 'p, 'e) manager \<Rightarrow> future \<times> ('d, 'p, 'e) manager" where
  "getDocument k s =
     (case documentDeferreds s k of
        Some deferred \<Rightarrow> (Promise_of deferred, s)
      | None \<Rightarrow>
          (case documents s k of
             Some r \<Rightarrow> (Resolved_with r, s)
           | None \<Rightarrow> (let (deferred, s1) = initDocument k s in (Promise_of deferred, s1))))"

subsection \<open>The callbacks registered by \<open>_resetDocument\<close>\<close>

text \<open>The listener of \<open>closed\<close>, bound to the ID of the request that made the Document.\<close>

definition closed_listener :: "key \<Rightarrow> ('d, 'p, 'e) manager \<Rightarrow> ('d, 'p, 'e) manager" where
  "closed_listener k s =
     (let s1 = s\<lparr>documents := (documents s)(k := None),
                 documentChanges := (documentChanges s)(k := None)\<rparr>
      in case documentDeferreds s1 k of
           None \<Rightarrow> s1
         | Some deferred \<Rightarrow>
             (settle deferred (Rejected None) s1)
               \<lparr>documentDeferreds := (documentDeferreds s1)(k := None)\<rparr>)"

text \<open>
  The request is fulfilled with a new Document of content \<open>d\<close>: the listener is
  registered, the Document is stored and the queue is processed.
\<close>

definition fetch_done ::
  "('d \<Rightarrow> 'p change \<Rightarrow> bool \<times> 'd) \<Rightarrow> key \<Rightarrow> 'd \<Rightarrow> ('d, 'p, 'e) manager
     \<Rightarrow> error + ('d, 'p, 'e) manager" where
  "fetch_done ap k d s =
     (let r = length (objects s);
          s1 = s\<lparr>objects := objects s @ [\<lparr>listener_id = k, content = d, applied = []\<rparr>],
                 documents := (documents s)(k \<mapsto> r)\<rparr>
      in processNextChange ap k s1)"

text \<open>
  The request is rejected with \<open>err\<close>: \<open>this._documentDeferreds[id].reject(err)\<close> reads
  the registry without a test, and \<open>undefined.reject\<close> throws.
\<close>

definition fetch_failed ::
  "key \<Rightarrow> 'e \<Rightarrow> ('d, 'p, 'e) manager \<Rightarrow> error + ('d, 'p, 'e) manager" where
  "fetch_failed k err s =
     (let s1 = s\<lparr>logger := logger s @ [Error_failed_to_get err]\<rparr>
      in case documentDeferreds s1 k of
           None \<Rightarrow> Inl TypeError
         | Some deferred \<Rightarrow> Inr (settle deferred (Rejected (Some err)) s1))"

subsection \<open>The event loop\<close>

text \<open>
  One reaction per event. A request can be answered only while it is outstanding, and
  only a Document that exists can emit \<open>closed\<close>; an event the environment cannot
  produce in a state leaves the state as it is. An exception ends the run.
\<close>

datatype ('d, 'p, 'e) event =
    GetDocument key
  | ImageChanged "'p change"
  | FetchResolved key 'd
  | FetchRejected key 'e
  | Closed doc_ref

fun step ::
  "('d \<Rightarrow> 'p change \<Rightarrow> bool \<times> 'd) \<Rightarrow> ('d, 'p, 'e) event \<Rightarrow> ('d, 'p, 'e) manager
     \<Rightarrow> error + ('d, 'p, 'e) manager" where
  "step ap (GetDocument k) s = Inr (snd (getDocument k s))"
| "step ap (ImageChanged c) s = handleImageChanged ap c s"
| "step ap (FetchResolved k d) s =
     (if k \<in> set (fetches s)
      then fetch_done ap k d (s\<lparr>fetches := remove1 k (fetches s)\<rparr>) else Inr s)"
| "step ap (FetchRejected k err) s =
     (if k \<in> set (fetches s)
      then fetch_failed k err (s\<lparr>fetches := remove1 k (fetches s)\<rparr>) else Inr s)"
| "step ap (Closed r) s =
     (case deref s r of
        None \<Rightarrow> Inr s
      | Some document \<Rightarrow> Inr (closed_listener (listener_id document) s))"

fun run ::
  "('d \<Rightarrow> 'p change \<Rightarrow> bool \<times> 'd) \<Rightarrow> ('d, 'p, 'e) event list \<Rightarrow> ('d, 'p, 'e) manager
     \<Rightarrow> error + ('d, 'p, 'e) manager" where
  "run ap [] s = Inr s"
| "run ap (ev # evs) s = (case step ap ev s of Inl e \<Rightarrow> Inl e | Inr s1 \<Rightarrow> run ap evs s1)"

subsection \<open>Sequential application\<close>

text \<open>
  Applying a list of changes to a content one after the other: the content after the
  last one, or \<open>None\<close> as soon as one call reports that it could not apply its change.
\<close>

fun apply_all :: "('d \<Rightarrow> 'p change \<Rightarrow> bool \<times> 'd) \<Rightarrow> 'd \<Rightarrow> 'p change list \<Rightarrow> 'd option" where
  "apply_all ap d [] = Some d"
| "apply_all ap d (c # cs) = (if fst (ap d c) then apply_all ap (snd (ap d c)) cs else None)"

text \<open>
  A Document for the examples: a counter; a change adds its payload, and a negative
  payload cannot be applied.
\<close>

definition counter_apply :: "int \<Rightarrow> int change \<Rightarrow> bool \<times> int" where
  "counter_apply d c = (0 \<le> payload c, d + payload c)"

definition add :: "key \<Rightarrow> int \<Rightarrow> int change" where
  "add k n = \<lparr>change_id = Some k, payload = n\<rparr>"

text \<open>
  Two states of the examples: the manager after \<open>getDocument(0)\<close>, respectively
  \<open>getDocument(7)\<close>, and the arrival of a Document of content 10.
\<close>

definition key0_ready :: "(int, int, string) manager" where
  "key0_ready =
     \<lparr>documents = [0 \<mapsto> 0], documentDeferreds = Map.empty, documentChanges = [0 \<mapsto> []],
      promises = [Fulfilled (Some 0)],
      objects = [\<lparr>listener_id = 0, content = 10, applied = []\<rparr>],
      fetches = [], logger = []\<rparr>"

definition key7_ready :: "(int, int, string) manager" where
  "key7_ready =
     \<lparr>documents = [7 \<mapsto> 0], documentDeferreds = Map.empty, documentChanges = [7 \<mapsto> []],
      promises = [Fulfilled (Some 0)],
      objects = [\<lparr>listener_id = 7, content = 10, applied = []\<rparr>],
      fetches = [], logger = []\<rparr>"

text \<open>
  Further states of the examples, all for key 7: a first request is outstanding;
  that request was rejected; a change could not be applied to the Document in
  \<open>key7_ready\<close> and the new request is outstanding; and, after that, the replaced
  Document has emitted \<open>closed\<close>.
\<close>

definition key7_fetching :: "(int, int, string) manager" where
  "key7_fetching =
     \<lparr>documents = Map.empty, documentDeferreds = [7 \<mapsto> 0], documentChanges = [7 \<mapsto> []],
      promises = [Pending], objects = [], fetches = [7], logger = []\<rparr>"

definition key7_failed :: "(int, int, string) manager" where
  "key7_failed =
     \<lparr>documents = Map.empty, documentDeferreds = [7 \<mapsto> 0], documentChanges = [7 \<mapsto> []],
      promises = [Rejected (Some ''timeout'')], objects = [], fetches = [],
      logger = [Error_failed_to_get ''timeout'']\<rparr>"

definition key7_resyncing :: "(int, int, string) manager" where
  "key7_resyncing =
     \<lparr>documents = Map.empty, documentDeferreds = [7 \<mapsto> 1], documentChanges = [7 \<mapsto> []],
      promises = [Fulfilled (Some 0), Pending],
      objects = [\<lparr>listener_id = 7, content = 9, applied = [add 7 (- 1)]\<rparr>],
      fetches = [7],
      logger = [Debug_applying (add 7 (- 1)), Warn_unable_to_apply]\<rparr>"

definition key7_closed :: "(int, int, string) manager" where
  "key7_closed =
     \<lparr>documents = Map.empty, documentDeferreds = Map.empty, documentChanges = Map.empty,
      promises = [Fulfilled (Some 0), Rejected None],
      objects = [\<lparr>listener_id = 7, content = 9, applied = [add 7 (- 1)]\<rparr>],
      fetches = [7],
      logger = [Debug_applying (add 7 (- 1)), Warn_unable_to_apply]\<rparr>"

text \<open>
  The state in which the fulfilment callback calls \<open>_processNextChange\<close> after three
  changes for key 7 were queued while the first request was outstanding.
\<close>

definition key7_draining :: "(int, int, string) manager" where
  "key7_draining =
     \<lparr>documents = [7 \<mapsto> 0], documentDeferreds = [7 \<mapsto> 0],
      documentChanges = [7 \<mapsto> [add 7 1, add 7 (- 1), add 7 3]],
      promises = [Pending],
      objects = [\<lparr>listener_id = 7, content = 10, applied = []\<rparr>],
      fetches = [], logger = []\<rparr>"

subsection \<open>Invariants\<close>

text \<open>
  The registry and the deferreds: every registered reference is a deferred that exists,
  no deferred is registered for two keys, and every deferred that is still pending is
  registered. The Documents: the Document a key holds exists and its \<open>closed\<close> listener
  is bound to that key.
\<close>

definition registry_ok :: "(key \<rightharpoonup> deferred_ref) \<Rightarrow> 'e promise_state list \<Rightarrow> bool" where
  "registry_ok reg ps \<longleftrightarrow>
     (\<forall>k p. reg k = Some p \<longrightarrow> p < length ps)
     \<and> (\<forall>k k' p. reg k = Some p \<and> reg k' = Some p \<longrightarrow> k = k')
     \<and> (\<forall>p < length ps. ps ! p = Pending \<longrightarrow> (\<exists>k. reg k = Some p))"

definition documents_ok :: "(key \<rightharpoonup> doc_ref) \<Rightarrow> ('d, 'p) document list \<Rightarrow> bool" where
  "documents_ok docs objs \<longleftrightarrow>
     (\<forall>k r. docs k = Some r \<longrightarrow> r < length objs \<and> listener_id (objs ! r) = k)"

definition invariant :: "('d, 'p, 'e) manager \<Rightarrow> bool" where
  "invariant s \<longleftrightarrow>
     registry_ok (documentDeferreds s) (promises s) \<and> documents_ok (documents s) (objects s)"

section \<open>Properties\<close>

subsection \<open>One call of \<open>_processNextChange\<close>\<close>

lemma processNextChange_settles:
  assumes "documentChanges s k = Some []" and "documentDeferreds s k = Some p"
  shows "processNextChange ap k s =
           Inr ((settle p (Fulfilled (documents s k)) s)
                  \<lparr>documentDeferreds := (documentDeferreds s)(k := None)\<rparr>)"
  using assms by (simp add: processNextChange.simps)

lemma processNextChange_applies:
  assumes "documentChanges s k = Some (c # rest)" and "documentDeferreds s k = Some p"
    and "documents s k = Some r" and "r < length (objects s)"
    and "fst (ap (content (objects s ! r)) c)"
  shows "processNextChange ap k s =
           processNextChange ap k
             (s\<lparr>documentChanges := (documentChanges s)(k \<mapsto> rest),
                logger := logger s @ [Debug_applying c],
                objects := (objects s)
                  [r := (objects s ! r)\<lparr>content := snd (ap (content (objects s ! r)) c),
                                         applied := applied (objects s ! r) @ [c]\<rparr>]\<rparr>)"
  using assms
  by (subst processNextChange.simps) (auto simp: deref_def Let_def split: prod.splits)

lemma processNextChange_resets:
  assumes "documentChanges s k = Some (c # rest)" and "documentDeferreds s k = Some p"
    and "documents s k = Some r" and "r < length (objects s)"
    and "\<not> fst (ap (content (objects s ! r)) c)"
  shows "processNextChange ap k s =
           Inr (s\<lparr>documentChanges := (documentChanges s)(k \<mapsto> []),
                  documents := (documents s)(k := None),
                  fetches := fetches s @ [k],
                  logger := logger s @ [Debug_applying c, Warn_unable_to_apply],
                  objects := (objects s)
                    [r := (objects s ! r)\<lparr>content := snd (ap (content (objects s ! r)) c),
                                           applied := applied (objects s ! r) @ [c]\<rparr>]\<rparr>)"
  using assms
  by (subst processNextChange.simps) (auto simp: deref_def resetDocument_def Let_def split: prod.splits)

lemma drain_prefix:
  assumes "apply_all ap (content (objects s ! r)) cs = Some d'"
    and "documentChanges s k = Some (cs @ rest)" and "documentDeferreds s k = Some p"
    and "documents s k = Some r" and "r < length (objects s)"
  shows "processNextChange ap k s =
           processNextChange ap k
             (s\<lparr>documentChanges := (documentChanges s)(k \<mapsto> rest),
                logger := logger s @ map Debug_applying cs,
                objects := (objects s)
                  [r := (objects s ! r)\<lparr>content := d',
                                         applied := applied (objects s ! r) @ cs\<rparr>]\<rparr>)"
  using assms
proof (induction cs arbitrary: s)
  case Nil
  then have q: "(documentChanges s)(k \<mapsto> rest) = documentChanges s"
    by (simp add: map_upd_triv)
  from Nil.prems have d: "d' = content (objects s ! r)" by simp
  show ?case unfolding d by (simp add: q)
next
  case (Cons c cs)
  let ?o = "objects s ! r"
  let ?s1 = "s\<lparr>documentChanges := (documentChanges s)(k \<mapsto> cs @ rest),
                logger := logger s @ [Debug_applying c],
                objects := (objects s)
                  [r := ?o\<lparr>content := snd (ap (content ?o) c), applied := applied ?o @ [c]\<rparr>]\<rparr>"
  from Cons.prems have ok: "fst (ap (content ?o) c)"
    and rest: "apply_all ap (snd (ap (content ?o) c)) cs = Some d'"
    by (simp_all split: if_splits)
  have "processNextChange ap k s = processNextChange ap k ?s1"
    using Cons.prems ok by (intro processNextChange_applies) simp_all
  also have "\<dots> = processNextChange ap k
             (?s1\<lparr>documentChanges := (documentChanges ?s1)(k \<mapsto> rest),
                logger := logger ?s1 @ map Debug_applying cs,
                objects := (objects ?s1)
                  [r := (objects ?s1 ! r)\<lparr>content := d',
                                         applied := applied (objects ?s1 ! r) @ cs\<rparr>]\<rparr>)"
    using Cons.prems rest by (intro Cons.IH) simp_all
  also have "(?s1\<lparr>documentChanges := (documentChanges ?s1)(k \<mapsto> rest),
                logger := logger ?s1 @ map Debug_applying cs,
                objects := (objects ?s1)
                  [r := (objects ?s1 ! r)\<lparr>content := d',
                                         applied := applied (objects ?s1 ! r) @ cs\<rparr>]\<rparr>) =
             (s\<lparr>documentChanges := (documentChanges s)(k \<mapsto> rest),
                logger := logger s @ map Debug_applying (c # cs),
                objects := (objects s)
                  [r := ?o\<lparr>content := d', applied := applied ?o @ c # cs\<rparr>]\<rparr>)"
    using Cons.prems(5) by simp
  finally show ?case .
qed

subsection \<open>One call of \<open>_handleImageChanged\<close>\<close>

lemma handleImageChanged_ready:
  assumes "change_id c = Some k" and "k \<noteq> 0"
    and "documents s k = Some r" and "r < length (objects s)"
    and "documentDeferreds s k = None"
    and "documentChanges s k = None \<or> documentChanges s k = Some []"
    and "fst (ap (content (objects s ! r)) c)"
  shows "handleImageChanged ap c s =
           Inr (s\<lparr>documentChanges := (documentChanges s)(k \<mapsto> []),
                  logger := logger s @ [Debug_applying c],
                  objects := (objects s)
                    [r := (objects s ! r)\<lparr>content := snd (ap (content (objects s ! r)) c),
                                           applied := applied (objects s ! r) @ [c]\<rparr>],
                  promises := promises s @ [Fulfilled (Some r)]\<rparr>)"
proof -
  let ?s3 = "s\<lparr>documentChanges := (documentChanges s)(k \<mapsto> [c]),
               promises := promises s @ [Pending],
               documentDeferreds := (documentDeferreds s)(k \<mapsto> length (promises s))\<rparr>"
  let ?s4 = "?s3\<lparr>documentChanges := (documentChanges ?s3)(k \<mapsto> []),
                logger := logger ?s3 @ [Debug_applying c],
                objects := (objects ?s3)
                  [r := (objects ?s3 ! r)\<lparr>content := snd (ap (content (objects ?s3 ! r)) c),
                                         applied := applied (objects ?s3 ! r) @ [c]\<rparr>]\<rparr>"
  have "handleImageChanged ap c s = processNextChange ap k ?s3"
    using assms by (auto simp: handleImageChanged_def Q_defer_def Let_def)
  also have "\<dots> = processNextChange ap k ?s4"
    using assms by (intro processNextChange_applies) simp_all
  also have "\<dots> = Inr ((settle (length (promises s)) (Fulfilled (documents ?s4 k)) ?s4)
                  \<lparr>documentDeferreds := (documentDeferreds ?s4)(k := None)\<rparr>)"
    by (intro processNextChange_settles) simp_all
  also have "\<dots> = Inr (s\<lparr>documentChanges := (documentChanges s)(k \<mapsto> []),
                  logger := logger s @ [Debug_applying c],
                  objects := (objects s)
                    [r := (objects s ! r)\<lparr>content := snd (ap (content (objects s ! r)) c),
                                           applied := applied (objects s ! r) @ [c]\<rparr>],
                  promises := promises s @ [Fulfilled (Some r)]\<rparr>)"
    using assms by (simp add: settle_def fun_upd_idem)
  finally show ?thesis .
qed

lemma handleImageChanged_enqueue:
  assumes "change_id c = Some k" and "k \<noteq> 0" and "documentDeferreds s k = Some p"
  shows "handleImageChanged ap c s =
           Inr (s\<lparr>documentChanges := (documentChanges s)
                    (k \<mapsto> (case documentChanges s k of None \<Rightarrow> [] | Some q \<Rightarrow> q) @ [c])\<rparr>)"
  using assms by (auto simp: handleImageChanged_def Let_def split: option.splits)

lemma handleImageChanged_falsy:
  assumes "falsy (change_id c)"
  shows "handleImageChanged ap c s = Inr (s\<lparr>logger := logger s @ [Warn_unknown_document c]\<rparr>)"
  using assms by (simp add: handleImageChanged_def)

lemma handleImageChanged_unknown:
  assumes "change_id c = Some k" and "k \<noteq> 0"
    and "documentDeferreds s k = None" and "documents s k = None"
  shows "handleImageChanged ap c s = Inr s"
  using assms by (simp add: handleImageChanged_def)

subsection \<open>Changes delivered one at a time\<close>

lemma run_append:
  "run ap (evs @ evs') s = (case run ap evs s of Inl e \<Rightarrow> Inl e | Inr s1 \<Rightarrow> run ap evs' s1)"
  by (induction evs arbitrary: s) (auto split: sum.splits)

lemma one_at_a_time:
  assumes "k \<noteq> 0" and "\<forall>c \<in> set cs. change_id c = Some k"
    and "documents s k = Some r" and "r < length (objects s)"
    and "documentDeferreds s k = None"
    and "documentChanges s k = None \<or> documentChanges s k = Some []"
    and "apply_all ap (content (objects s ! r)) cs = Some d'"
  shows "run ap (map ImageChanged cs) s =
           Inr (s\<lparr>documentChanges :=
                    (if cs = [] then documentChanges s else (documentChanges s)(k \<mapsto> [])),
                  logger := logger s @ map Debug_applying cs,
                  objects := (objects s)
                    [r := (objects s ! r)\<lparr>content := d',
                                           applied := applied (objects s ! r) @ cs\<rparr>],
                  promises := promises s @ replicate (length cs) (Fulfilled (Some r))\<rparr>)"
  using assms
proof (induction cs arbitrary: s)
  case Nil
  from Nil.prems have d: "d' = content (objects s ! r)" by simp
  show ?case unfolding d by simp
next
  case (Cons c cs)
  let ?o = "objects s ! r"
  let ?s1 = "s\<lparr>documentChanges := (documentChanges s)(k \<mapsto> []),
                logger := logger s @ [Debug_applying c],
                objects := (objects s)
                  [r := ?o\<lparr>content := snd (ap (content ?o) c), applied := applied ?o @ [c]\<rparr>],
                promises := promises s @ [Fulfilled (Some r)]\<rparr>"
  from Cons.prems have ok: "fst (ap (content ?o) c)"
    and rest: "apply_all ap (snd (ap (content ?o) c)) cs = Some d'"
    by (simp_all split: if_splits)
  have first: "handleImageChanged ap c s = Inr ?s1"
    using Cons.prems ok by (intro handleImageChanged_ready) simp_all
  have "run ap (map ImageChanged (c # cs)) s = run ap (map ImageChanged cs) ?s1"
    using first by simp
  also have "\<dots> =
          Inr (?s1\<lparr>documentChanges :=
                    (if cs = [] then documentChanges ?s1 else (documentChanges ?s1)(k \<mapsto> [])),
                  logger := logger ?s1 @ map Debug_applying cs,
                  objects := (objects ?s1)
                    [r := (objects ?s1 ! r)\<lparr>content := d',
                                           applied := applied (objects ?s1 ! r) @ cs\<rparr>],
                  promises := promises ?s1 @ replicate (length cs) (Fulfilled (Some r))\<rparr>)"
    using Cons.prems rest by (intro Cons.IH) simp_all
  also have "\<dots> = Inr (s\<lparr>documentChanges :=
                    (if c # cs = [] then documentChanges s else (documentChanges s)(k \<mapsto> [])),
                  logger := logger s @ map Debug_applying (c # cs),
                  objects := (objects s)
                    [r := ?o\<lparr>content := d', applied := applied ?o @ c # cs\<rparr>],
                  promises := promises s @ replicate (length (c # cs)) (Fulfilled (Some r))\<rparr>)"
    using Cons.prems(4) by (simp add: replicate_app_Cons_same)
  finally show ?case .
qed

subsection \<open>Evaluating the examples\<close>

lemmas manager_defs =
  DocumentManager_def getDocument_def initDocument_def Q_defer_def resetDocument_def
  fetch_done_def fetch_failed_def processNextChange.simps settle_def handleImageChanged_def
  deref_def closed_listener_def counter_apply_def add_def

lemma key0_ready_reached:
  "run counter_apply [GetDocument 0, FetchResolved 0 10] DocumentManager = Inr key0_ready"
  by (simp add: manager_defs key0_ready_def)

lemma key7_ready_reached:
  "run counter_apply [GetDocument 7, FetchResolved 7 10] DocumentManager = Inr key7_ready"
  by (simp add: manager_defs key7_ready_def)

lemmas example_defs =
  key0_ready_def key7_ready_def key7_fetching_def key7_failed_def key7_resyncing_def
  key7_closed_def

lemma key7_fetching_reached:
  "run counter_apply [GetDocument 7] DocumentManager = Inr key7_fetching"
  by (simp add: manager_defs key7_fetching_def)

lemma key7_resyncing_reached:
  "run counter_apply [ImageChanged (add 7 (- 1))] key7_ready = Inr key7_resyncing"
  by (simp add: manager_defs key7_ready_def key7_resyncing_def)

lemma key7_closed_reached:
  "run counter_apply [Closed 0] key7_resyncing = Inr key7_closed"
  by (simp add: manager_defs key7_closed_def key7_resyncing_def)

subsection \<open>The listener of \<open>closed\<close>\<close>

lemma closed_listener_clears:
  "documents (closed_listener k s) k = None"
  "documentChanges (closed_listener k s) k = None"
  "documentDeferreds (closed_listener k s) k = None"
  "objects (closed_listener k s) = objects s"
  "fetches (closed_listener k s) = fetches s"
  "logger (closed_listener k s) = logger s"
  by (simp_all add: closed_listener_def settle_def Let_def split: option.splits)

lemma closed_listener_promises:
  "promises (closed_listener k s) =
     (case documentDeferreds s k of
        None \<Rightarrow> promises s
      | Some p \<Rightarrow> if p < length (promises s) \<and> promises s ! p = Pending
                  then (promises s)[p := Rejected None] else promises s)"
  by (simp add: closed_listener_def settle_def Let_def split: option.splits)

subsection \<open>Changes queued while a request is outstanding\<close>

lemma queued_while_registered:
  assumes "\<forall>c \<in> set qs. change_id c = Some k" and "k \<noteq> 0"
    and "documentDeferreds s k = Some p" and "documentChanges s k = Some q"
  shows "run ap (map ImageChanged qs) s =
           Inr (s\<lparr>documentChanges := (documentChanges s)(k \<mapsto> q @ qs)\<rparr>)"
  using assms
proof (induction qs arbitrary: s q)
  case Nil
  then show ?case by (simp add: map_upd_triv)
next
  case (Cons c qs)
  let ?s1 = "s\<lparr>documentChanges := (documentChanges s)(k \<mapsto> q @ [c])\<rparr>"
  have "handleImageChanged ap c s = Inr ?s1"
    using Cons.prems by (simp add: handleImageChanged_enqueue [where k = k and p = p])
  then have "run ap (map ImageChanged (c # qs)) s = run ap (map ImageChanged qs) ?s1"
    by simp
  also have "\<dots> = Inr (?s1\<lparr>documentChanges := (documentChanges ?s1)(k \<mapsto> (q @ [c]) @ qs)\<rparr>)"
    using Cons.prems by (intro Cons.IH) simp_all
  also have "\<dots> = Inr (s\<lparr>documentChanges := (documentChanges s)(k \<mapsto> q @ c # qs)\<rparr>)"
    by simp
  finally show ?case .
qed

lemma dropped_for_key_zero:
  assumes "\<forall>c \<in> set qs. change_id c = Some 0"
  shows "run ap (map ImageChanged qs) s =
           Inr (s\<lparr>logger := logger s @ map Warn_unknown_document qs\<rparr>)"
  using assms
proof (induction qs arbitrary: s)
  case Nil
  then show ?case by simp
next
  case (Cons c qs)
  let ?s1 = "s\<lparr>logger := logger s @ [Warn_unknown_document c]\<rparr>"
  have "handleImageChanged ap c s = Inr ?s1"
    using Cons.prems by (simp add: handleImageChanged_falsy)
  then have "run ap (map ImageChanged (c # qs)) s = run ap (map ImageChanged qs) ?s1"
    by simp
  also have "\<dots> = Inr (?s1\<lparr>logger := logger ?s1 @ map Warn_unknown_document qs\<rparr>)"
    using Cons.prems by (intro Cons.IH) simp_all
  also have "\<dots> = Inr (s\<lparr>logger := logger s @ map Warn_unknown_document (c # qs)\<rparr>)"
    by simp
  finally show ?case .
qed

lemma fetch_done_drains:
  assumes "documentChanges s k = Some qs" and "documentDeferreds s k = Some p"
    and "p < length (promises s)" and "promises s ! p = Pending"
    and "apply_all ap d qs = Some d'"
  shows "fetch_done ap k d s =
           Inr (s\<lparr>documents := (documents s)(k \<mapsto> length (objects s)),
                  documentDeferreds := (documentDeferreds s)(k := None),
                  documentChanges := (documentChanges s)(k \<mapsto> []),
                  promises := (promises s)[p := Fulfilled (Some (length (objects s)))],
                  objects := objects s @ [\<lparr>listener_id = k, content = d', applied = qs\<rparr>],
                  logger := logger s @ map Debug_applying qs\<rparr>)"
proof -
  let ?n = "length (objects s)"
  let ?s1 = "s\<lparr>objects := objects s @ [\<lparr>listener_id = k, content = d, applied = []\<rparr>],
               documents := (documents s)(k \<mapsto> ?n)\<rparr>"
  let ?s2 = "?s1\<lparr>documentChanges := (documentChanges ?s1)(k \<mapsto> []),
                logger := logger ?s1 @ map Debug_applying qs,
                objects := (objects ?s1)
                  [?n := (objects ?s1 ! ?n)\<lparr>content := d',
                                         applied := applied (objects ?s1 ! ?n) @ qs\<rparr>]\<rparr>"
  have "fetch_done ap k d s = processNextChange ap k ?s1"
    by (simp add: fetch_done_def Let_def)
  also have "\<dots> = processNextChange ap k ?s2"
    using assms by (intro drain_prefix [where p = p and rest = "[]"]) simp_all
  also have "\<dots> = Inr ((settle p (Fulfilled (documents ?s2 k)) ?s2)
                  \<lparr>documentDeferreds := (documentDeferreds ?s2)(k := None)\<rparr>)"
    using assms by (intro processNextChange_settles) simp_all
  also have "\<dots> = Inr (s\<lparr>documents := (documents s)(k \<mapsto> length (objects s)),
                  documentDeferreds := (documentDeferreds s)(k := None),
                  documentChanges := (documentChanges s)(k \<mapsto> []),
                  promises := (promises s)[p := Fulfilled (Some (length (objects s)))],
                  objects := objects s @ [\<lparr>listener_id = k, content = d', applied = qs\<rparr>],
                  logger := logger s @ map Debug_applying qs\<rparr>)"
    using assms by (simp add: settle_def)
  finally show ?thesis .
qed

lemma key7_draining_reached:
  "run counter_apply [ImageChanged (add 7 1), ImageChanged (add 7 (- 1)), ImageChanged (add 7 3)]
     key7_fetching =
   Inr (key7_fetching\<lparr>documentChanges := [7 \<mapsto> [add 7 1, add 7 (- 1), add 7 3]]\<rparr>)
   \<and> (key7_fetching\<lparr>documentChanges := [7 \<mapsto> [add 7 1, add 7 (- 1), add 7 3]]\<rparr>)
        \<lparr>fetches := [],
         objects := [\<lparr>listener_id = 7, content = 10, applied = []\<rparr>],
         documents := [7 \<mapsto> 0]\<rparr> = key7_draining"
  by (simp add: manager_defs key7_fetching_def key7_draining_def)

lemma resolves_after_refetch:
  assumes "documentDeferreds s k = Some p" and "p < length (promises s)"
    and "promises s ! p = Pending" and "documentChanges s k = Some []"
    and "k \<in> set (fetches s)" and "\<forall>c \<in> set qs. change_id c = Some k"
    and "apply_all ap d (if k = 0 then [] else qs) = Some d'"
  shows "run ap (map ImageChanged qs @ [FetchResolved k d]) s =
           Inr (s\<lparr>fetches := remove1 k (fetches s),
                  documents := (documents s)(k \<mapsto> length (objects s)),
                  documentDeferreds := (documentDeferreds s)(k := None),
                  documentChanges := (documentChanges s)(k \<mapsto> []),
                  promises := (promises s)[p := Fulfilled (Some (length (objects s)))],
                  objects := objects s @
                    [\<lparr>listener_id = k, content = d',
                      applied = (if k = 0 then [] else qs)\<rparr>],
                  logger := logger s @ (if k = 0 then map Warn_unknown_document qs else [])
                    @ map Debug_applying (if k = 0 then [] else qs)\<rparr>)"
proof (cases "k = 0")
  case True
  let ?s1 = "s\<lparr>logger := logger s @ map Warn_unknown_document qs\<rparr>"
  let ?s2 = "?s1\<lparr>fetches := remove1 k (fetches ?s1)\<rparr>"
  have "run ap (map ImageChanged qs) s = Inr ?s1"
    using assms(6) True by (simp add: dropped_for_key_zero)
  moreover have "step ap (FetchResolved k d) ?s1 = fetch_done ap k d ?s2"
    using assms(5) by simp
  moreover have "fetch_done ap k d ?s2 =
           Inr (?s2\<lparr>documents := (documents ?s2)(k \<mapsto> length (objects ?s2)),
                  documentDeferreds := (documentDeferreds ?s2)(k := None),
                  documentChanges := (documentChanges ?s2)(k \<mapsto> []),
                  promises := (promises ?s2)[p := Fulfilled (Some (length (objects ?s2)))],
                  objects := objects ?s2 @ [\<lparr>listener_id = k, content = d', applied = []\<rparr>],
                  logger := logger ?s2 @ map Debug_applying []\<rparr>)"
    using assms True by (intro fetch_done_drains) simp_all
  ultimately show ?thesis
    using True by (simp add: run_append)
next
  case False
  let ?s1 = "s\<lparr>documentChanges := (documentChanges s)(k \<mapsto> [] @ qs)\<rparr>"
  let ?s2 = "?s1\<lparr>fetches := remove1 k (fetches ?s1)\<rparr>"
  have "run ap (map ImageChanged qs) s = Inr ?s1"
    using assms False by (intro queued_while_registered [where p = p]) simp_all
  moreover have "step ap (FetchResolved k d) ?s1 = fetch_done ap k d ?s2"
    using assms(5) by simp
  moreover have "fetch_done ap k d ?s2 =
           Inr (?s2\<lparr>documents := (documents ?s2)(k \<mapsto> length (objects ?s2)),
                  documentDeferreds := (documentDeferreds ?s2)(k := None),
                  documentChanges := (documentChanges ?s2)(k \<mapsto> []),
                  promises := (promises ?s2)[p := Fulfilled (Some (length (objects ?s2)))],
                  objects := objects ?s2 @ [\<lparr>listener_id = k, content = d', applied = qs\<rparr>],
                  logger := logger ?s2 @ map Debug_applying qs\<rparr>)"
    using assms False by (intro fetch_done_drains) simp_all
  ultimately show ?thesis
    using False by (simp add: run_append)
qed

lemma drain_until_failure:
  assumes "documentChanges s k = Some (cs @ c # rest)" and "documentDeferreds s k = Some p"
    and "documents s k = Some r" and "r < length (objects s)"
    and "apply_all ap (content (objects s ! r)) cs = Some d1" and "\<not> fst (ap d1 c)"
  shows "processNextChange ap k s =
           Inr (s\<lparr>documentChanges := (documentChanges s)(k \<mapsto> []),
                  documents := (documents s)(k := None),
                  fetches := fetches s @ [k],
                  logger := logger s @ map Debug_applying (cs @ [c]) @ [Warn_unable_to_apply],
                  objects := (objects s)
                    [r := (objects s ! r)\<lparr>content := snd (ap d1 c),
                                           applied := applied (objects s ! r) @ cs @ [c]\<rparr>]\<rparr>)"
proof -
  let ?s1 = "s\<lparr>documentChanges := (documentChanges s)(k \<mapsto> c # rest),
                logger := logger s @ map Debug_applying cs,
                objects := (objects s)
                  [r := (objects s ! r)\<lparr>content := d1,
                                         applied := applied (objects s ! r) @ cs\<rparr>]\<rparr>"
  have "processNextChange ap k s = processNextChange ap k ?s1"
    using assms by (intro drain_prefix [where p = p]) simp_all
  also have "\<dots> = Inr (?s1\<lparr>documentChanges := (documentChanges ?s1)(k \<mapsto> []),
                  documents := (documents ?s1)(k := None),
                  fetches := fetches ?s1 @ [k],
                  logger := logger ?s1 @ [Debug_applying c, Warn_unable_to_apply],
                  objects := (objects ?s1)
                    [r := (objects ?s1 ! r)\<lparr>content := snd (ap (content (objects ?s1 ! r)) c),
                                           applied := applied (objects ?s1 ! r) @ [c]\<rparr>]\<rparr>)"
    using assms by (intro processNextChange_resets [where p = p and rest = rest]) simp_all
  also have "\<dots> = Inr (s\<lparr>documentChanges := (documentChanges s)(k \<mapsto> []),
                  documents := (documents s)(k := None),
                  fetches := fetches s @ [k],
                  logger := logger s @ map Debug_applying (cs @ [c]) @ [Warn_unable_to_apply],
                  objects := (objects s)
                    [r := (objects s ! r)\<lparr>content := snd (ap d1 c),
                                           applied := applied (objects s ! r) @ cs @ [c]\<rparr>]\<rparr>)"
    using assms(4) by simp
  finally show ?thesis .
qed

subsection \<open>What \<open>_processNextChange\<close> leaves alone\<close>

lemma processNextChange_frame:
  assumes "processNextChange ap k s = Inr s'"
  shows "((documentDeferreds s' = documentDeferreds s \<and> promises s' = promises s)
          \<or> (\<exists>p. documentDeferreds s k = Some p
                \<and> documentDeferreds s' = (documentDeferreds s)(k := None)
                \<and> promises s' =
                    (if p < length (promises s) \<and> promises s ! p = Pending
                     then (promises s)[p := Fulfilled (documents s k)] else promises s)))
         \<and> map listener_id (objects s') = map listener_id (objects s)
         \<and> (documents s' = documents s \<or> documents s' = (documents s)(k := None))"
  using assms
proof (induction ap k s arbitrary: s' rule: processNextChange.induct)
  case (1 ap k s)
  show ?case
  proof (cases "documentChanges s k")
    case None
    with "1.prems" show ?thesis by (simp add: processNextChange.simps)
  next
    case (Some changes)
    note ch = Some
    show ?thesis
    proof (cases "documentDeferreds s k")
      case None
      with ch "1.prems" show ?thesis by (simp add: processNextChange.simps)
    next
      case (Some p)
      note df = Some
      show ?thesis
      proof (cases changes)
        case Nil
        with ch df "1.prems" show ?thesis
          by (auto simp: processNextChange.simps settle_def)
      next
        case (Cons c rest)
        note cq = Cons
        show ?thesis
        proof (cases "Option.bind (documents s k) (deref s)")
          case None
          with ch df cq "1.prems" show ?thesis by (simp add: processNextChange.simps)
        next
          case (Some doc)
          obtain r where r: "documents s k = Some r" and dr: "deref s r = Some doc"
            using Some by (cases "documents s k") auto
          then have rl: "r < length (objects s)" and od: "objects s ! r = doc"
            by (auto simp: deref_def split: if_splits)
          let ?s1 = "s\<lparr>documentChanges := (documentChanges s)(k \<mapsto> rest),
                        logger := logger s @ [Debug_applying c],
                        objects := (objects s)
                          [the (documents s k) := doc\<lparr>content := snd (ap (content doc) c),
                                    applied := applied doc @ [c]\<rparr>]\<rparr>"
          have lid: "map listener_id (objects ?s1) = map listener_id (objects s)"
            using r rl od by (simp add: map_update list_update_same_conv)
          show ?thesis
          proof (cases "fst (ap (content doc) c)")
            case True
            then have nn: "\<not> \<not> fst (ap (content doc) c)" by simp
            have "processNextChange ap k s = processNextChange ap k ?s1"
              using ch df cq r rl od True
              by (simp add: processNextChange_applies [where p = p and r = r and rest = rest])
            with "1.prems" have next_call: "processNextChange ap k ?s1 = Inr s'" by simp
            note IH = "1.IH" [OF ch df cq Some refl refl prod.collapse refl nn next_call]
            have same: "documentDeferreds ?s1 = documentDeferreds s"
              "promises ?s1 = promises s" "documents ?s1 = documents s"
              by simp_all
            from IH show ?thesis unfolding same lid .
          next
            case False
            have "processNextChange ap k s =
                    Inr (s\<lparr>documentChanges := (documentChanges s)(k \<mapsto> []),
                      documents := (documents s)(k := None),
                      fetches := fetches s @ [k],
                      logger := logger s @ [Debug_applying c, Warn_unable_to_apply],
                      objects := (objects s)
                        [r := (objects s ! r)\<lparr>content := snd (ap (content (objects s ! r)) c),
                                    applied := applied (objects s ! r) @ [c]\<rparr>]\<rparr>)"
              using ch df cq r rl od False
              by (intro processNextChange_resets [where p = p and rest = rest]) simp_all
            with "1.prems" have s': "s' = s\<lparr>documentChanges := (documentChanges s)(k \<mapsto> []),
                      documents := (documents s)(k := None),
                      fetches := fetches s @ [k],
                      logger := logger s @ [Debug_applying c, Warn_unable_to_apply],
                      objects := (objects s)
                        [r := (objects s ! r)\<lparr>content := snd (ap (content (objects s ! r)) c),
                                    applied := applied (objects s ! r) @ [c]\<rparr>]\<rparr>"
              by simp
            show ?thesis unfolding s' using rl
              by (simp add: map_update list_update_same_conv)
          qed
        qed
      qed
    qed
  qed
qed

subsection \<open>The invariants are kept\<close>

lemma registry_ok_fresh:
  assumes "registry_ok reg ps" and "reg k = None"
  shows "registry_ok (reg(k \<mapsto> length ps)) (ps @ [Pending])"
  unfolding registry_ok_def
proof (intro conjI allI impI)
  fix k' p assume "(reg(k \<mapsto> length ps)) k' = Some p"
  then show "p < length (ps @ [Pending])"
    using assms by (auto simp: registry_ok_def split: if_splits dest: less_SucI)
next
  fix k1 k2 p
  assume "(reg(k \<mapsto> length ps)) k1 = Some p \<and> (reg(k \<mapsto> length ps)) k2 = Some p"
  then show "k1 = k2"
    using assms by (fastforce simp: registry_ok_def split: if_splits)
next
  fix p assume p: "p < length (ps @ [Pending])" "(ps @ [Pending]) ! p = Pending"
  show "\<exists>k'. (reg(k \<mapsto> length ps)) k' = Some p"
  proof (cases "p = length ps")
    case True
    then show ?thesis by auto
  next
    case False
    with p have pl: "p < length ps" and "ps ! p = Pending"
      by (auto simp: nth_append)
    then obtain k' where k': "reg k' = Some p"
      using assms(1) by (auto simp: registry_ok_def)
    with assms(2) have "k' \<noteq> k" by auto
    with k' show ?thesis by auto
  qed
qed

lemma registry_ok_settle_remove:
  assumes "registry_ok reg ps" and "reg k = Some p" and "v \<noteq> Pending"
  shows "registry_ok (reg(k := None))
           (if p < length ps \<and> ps ! p = Pending then ps[p := v] else ps)"
proof -
  let ?ps = "if p < length ps \<and> ps ! p = Pending then ps[p := v] else ps"
  have len: "length ?ps = length ps" by simp
  have pl: "p < length ps" using assms by (auto simp: registry_ok_def)
  have settled: "?ps ! p \<noteq> Pending" using assms(3) pl by simp
  have other: "?ps ! q = ps ! q" if "q \<noteq> p" for q using that by simp
  show ?thesis
    unfolding registry_ok_def len
  proof (intro conjI allI impI)
    fix k' q assume "(reg(k := None)) k' = Some q"
    then show "q < length ps"
      using assms(1) by (auto simp: registry_ok_def split: if_splits)
  next
    fix k1 k2 q
    assume "(reg(k := None)) k1 = Some q \<and> (reg(k := None)) k2 = Some q"
    then show "k1 = k2"
      using assms(1) by (fastforce simp: registry_ok_def split: if_splits)
  next
    fix q assume q: "q < length ps" and pend: "?ps ! q = Pending"
    then have "q \<noteq> p" using settled by auto
    with pend have "ps ! q = Pending" by (simp add: other)
    with q obtain k' where k': "reg k' = Some q"
      using assms(1) by (auto simp: registry_ok_def)
    with \<open>q \<noteq> p\<close> assms(2) have "k' \<noteq> k" by auto
    with k' show "\<exists>k'. (reg(k := None)) k' = Some q" by auto
  qed
qed

lemma registry_ok_settle_keep:
  assumes "registry_ok reg ps"
  shows "registry_ok reg (if p < length ps \<and> ps ! p = Pending then ps[p := v] else ps)"
  using assms
  by (auto simp: registry_ok_def nth_list_update split: if_splits)

lemma documents_ok_remove:
  "documents_ok docs objs \<Longrightarrow> documents_ok (docs(k := None)) objs"
  by (auto simp: documents_ok_def)

lemma documents_ok_listeners:
  assumes "documents_ok docs objs" and "map listener_id objs' = map listener_id objs"
  shows "documents_ok docs objs'"
proof -
  have len: "length objs' = length objs"
    using assms(2) by (metis length_map)
  have "listener_id (objs' ! r) = listener_id (objs ! r)" if "r < length objs" for r
    using that assms(2) len by (metis nth_map)
  with assms(1) len show ?thesis by (auto simp: documents_ok_def)
qed

lemma documents_ok_new:
  assumes "documents_ok docs objs"
  shows "documents_ok (docs(k \<mapsto> length objs))
           (objs @ [\<lparr>listener_id = k, content = d, applied = []\<rparr>])"
  using assms by (auto simp: documents_ok_def nth_append less_Suc_eq)

lemma processNextChange_invariant:
  assumes "invariant s" and "processNextChange ap k s = Inr s'"
  shows "invariant s'"
proof -
  note fr = processNextChange_frame [OF assms(2)]
  from fr have lis: "map listener_id (objects s') = map listener_id (objects s)"
    and docs: "documents s' = documents s \<or> documents s' = (documents s)(k := None)"
    by simp_all
  from assms(1) have reg: "registry_ok (documentDeferreds s) (promises s)"
    and dok: "documents_ok (documents s) (objects s)"
    by (simp_all add: invariant_def)
  from fr have "(documentDeferreds s' = documentDeferreds s \<and> promises s' = promises s)
          \<or> (\<exists>p. documentDeferreds s k = Some p
                \<and> documentDeferreds s' = (documentDeferreds s)(k := None)
                \<and> promises s' =
                    (if p < length (promises s) \<and> promises s ! p = Pending
                     then (promises s)[p := Fulfilled (documents s k)] else promises s))"
    by simp
  then have "registry_ok (documentDeferreds s') (promises s')"
  proof (elim conjE disjE exE)
    assume "documentDeferreds s' = documentDeferreds s" and "promises s' = promises s"
    with reg show ?thesis by simp
  next
    fix p
    assume p: "documentDeferreds s k = Some p"
      and d: "documentDeferreds s' = (documentDeferreds s)(k := None)"
      and ps: "promises s' =
                (if p < length (promises s) \<and> promises s ! p = Pending
                 then (promises s)[p := Fulfilled (documents s k)] else promises s)"
    show ?thesis
      unfolding d ps using reg p by (intro registry_ok_settle_remove) simp_all
  qed
  moreover have "documents_ok (documents s') (objects s')"
  proof -
    have "documents_ok (documents s') (objects s)"
      using docs dok by (auto intro: documents_ok_remove)
    then show ?thesis using lis by (rule documents_ok_listeners)
  qed
  ultimately show ?thesis by (simp add: invariant_def)
qed

lemma initDocument_invariant:
  assumes "invariant s" and "documentDeferreds s k = None"
  shows "invariant (snd (initDocument k s))"
  using assms
  by (simp add: invariant_def initDocument_def Q_defer_def resetDocument_def
      registry_ok_fresh documents_ok_remove)

lemma getDocument_invariant:
  assumes "invariant s"
  shows "invariant (snd (getDocument k s))"
proof (cases "documentDeferreds s k")
  case None
  show ?thesis
  proof (cases "documents s k")
    case None
    with \<open>documentDeferreds s k = None\<close> initDocument_invariant [OF assms, of k]
    show ?thesis by (simp add: getDocument_def case_prod_beta)
  next
    case (Some r)
    with \<open>documentDeferreds s k = None\<close> assms show ?thesis by (simp add: getDocument_def)
  qed
next
  case (Some p)
  with assms show ?thesis by (simp add: getDocument_def)
qed

lemma handleImageChanged_invariant:
  assumes "invariant s" and "handleImageChanged ap c s = Inr s'"
  shows "invariant s'"
proof (cases "falsy (change_id c)")
  case True
  with assms show ?thesis by (auto simp: handleImageChanged_def invariant_def)
next
  case False
  define k where "k = the (change_id c)"
  define q where "q = (case documentChanges s k of None \<Rightarrow> [] | Some q \<Rightarrow> q) @ [c]"
  let ?s2 = "s\<lparr>documentChanges := (documentChanges s)(k \<mapsto> q)\<rparr>"
  have inv2: "invariant ?s2" using assms(1) by (simp add: invariant_def)
  consider (unknown) "documentDeferreds s k = None" "documents s k = None"
    | (queued) "\<not> (documentDeferreds s k = None \<and> documents s k = None)"
        "\<not> (length q = 1 \<and> documentDeferreds s k = None)"
    | (drain) "length q = 1" "documentDeferreds s k = None" "documents s k \<noteq> None"
    by auto
  then show ?thesis
  proof cases
    case unknown
    with False assms show ?thesis by (simp add: handleImageChanged_def k_def)
  next
    case queued
    with False assms(2) have "s' = ?s2"
      by (auto simp: handleImageChanged_def k_def q_def Let_def split: option.splits)
    with inv2 show ?thesis by simp
  next
    case drain
    let ?s3 = "?s2\<lparr>promises := promises s @ [Pending],
                   documentDeferreds := (documentDeferreds s)(k \<mapsto> length (promises s))\<rparr>"
    have "invariant ?s3"
      using assms(1) drain(2) by (simp add: invariant_def registry_ok_fresh)
    moreover have "processNextChange ap k ?s3 = Inr s'"
      using False assms(2) drain
      by (auto simp: handleImageChanged_def k_def q_def Let_def Q_defer_def
          split: option.splits)
    ultimately show ?thesis by (rule processNextChange_invariant)
  qed
qed

lemma fetch_done_invariant:
  assumes "invariant s" and "fetch_done ap k d s = Inr s'"
  shows "invariant s'"
proof -
  let ?s1 = "s\<lparr>objects := objects s @ [\<lparr>listener_id = k, content = d, applied = []\<rparr>],
               documents := (documents s)(k \<mapsto> length (objects s))\<rparr>"
  have "invariant ?s1"
    using assms(1) by (simp add: invariant_def documents_ok_new)
  moreover have "processNextChange ap k ?s1 = Inr s'"
    using assms(2) by (simp add: fetch_done_def Let_def)
  ultimately show ?thesis by (rule processNextChange_invariant)
qed

lemma settle_fields:
  "promises (settle p v s) =
     (if p < length (promises s) \<and> promises s ! p = Pending
      then (promises s)[p := v] else promises s)"
  "documentDeferreds (settle p v s) = documentDeferreds s"
  "documents (settle p v s) = documents s"
  "objects (settle p v s) = objects s"
  by (simp_all add: settle_def)

lemma fetch_failed_invariant:
  assumes "invariant s" and "fetch_failed k err s = Inr s'"
  shows "invariant s'"
proof -
  from assms(2) obtain p where p: "documentDeferreds s k = Some p"
    and s': "s' = settle p (Rejected (Some err))
                    (s\<lparr>logger := logger s @ [Error_failed_to_get err]\<rparr>)"
    by (auto simp: fetch_failed_def Let_def split: option.splits)
  have fields: "documentDeferreds s' = documentDeferreds s" "documents s' = documents s"
    "objects s' = objects s"
    "promises s' =
       (if p < length (promises s) \<and> promises s ! p = Pending
        then (promises s)[p := Rejected (Some err)] else promises s)"
    unfolding s' by (simp_all add: settle_fields)
  from assms(1) have reg: "registry_ok (documentDeferreds s) (promises s)"
    and dok: "documents_ok (documents s) (objects s)"
    by (simp_all add: invariant_def)
  from reg have "registry_ok (documentDeferreds s)
          (if p < length (promises s) \<and> promises s ! p = Pending
           then (promises s)[p := Rejected (Some err)] else promises s)"
    by (rule registry_ok_settle_keep)
  from this dok show ?thesis
    unfolding invariant_def fields by (rule conjI)
qed

lemma closed_listener_maps:
  "documentDeferreds (closed_listener k s) = (documentDeferreds s)(k := None)"
  "documents (closed_listener k s) = (documents s)(k := None)"
  "objects (closed_listener k s) = objects s"
  by (simp_all add: closed_listener_def settle_def Let_def fun_upd_idem split: option.splits)

lemma closed_listener_invariant:
  assumes "invariant s"
  shows "invariant (closed_listener k s)"
proof -
  from assms have reg: "registry_ok (documentDeferreds s) (promises s)"
    and dok: "documents_ok (documents s) (objects s)"
    by (simp_all add: invariant_def)
  have "registry_ok ((documentDeferreds s)(k := None)) (promises (closed_listener k s))"
  proof (cases "documentDeferreds s k")
    case None
    with reg show ?thesis by (simp add: closed_listener_promises fun_upd_idem)
  next
    case (Some p)
    have "registry_ok ((documentDeferreds s)(k := None))
            (if p < length (promises s) \<and> promises s ! p = Pending
             then (promises s)[p := Rejected None] else promises s)"
      using reg Some by (intro registry_ok_settle_remove) simp_all
    with Some show ?thesis by (simp add: closed_listener_promises)
  qed
  with dok show ?thesis
    by (simp add: invariant_def closed_listener_maps documents_ok_remove)
qed

lemma step_invariant:
  assumes "invariant s" and "step ap ev s = Inr s'"
  shows "invariant s'"
proof (cases ev)
  case (GetDocument k)
  with assms getDocument_invariant [OF assms(1), of k] show ?thesis by auto
next
  case (ImageChanged c)
  with assms show ?thesis by (auto intro: handleImageChanged_invariant)
next
  case (FetchResolved k d)
  have "invariant (s\<lparr>fetches := remove1 k (fetches s)\<rparr>)"
    using assms(1) by (simp add: invariant_def)
  with FetchResolved assms show ?thesis
    by (auto intro: fetch_done_invariant split: if_splits)
next
  case (FetchRejected k err)
  have "invariant (s\<lparr>fetches := remove1 k (fetches s)\<rparr>)"
    using assms(1) by (simp add: invariant_def)
  with FetchRejected assms show ?thesis
    by (auto intro: fetch_failed_invariant split: if_splits)
next
  case (Closed r)
  with assms show ?thesis
    by (auto intro: closed_listener_invariant split: option.splits)
qed

lemma run_invariant:
  assumes "invariant s" and "run ap evs s = Inr s'"
  shows "invariant s'"
  using assms
proof (induction evs arbitrary: s)
  case Nil
  then show ?case by simp
next
  case (Cons ev evs)
  then obtain s1 where "step ap ev s = Inr s1" and "run ap evs s1 = Inr s'"
    by (auto split: sum.splits)
  with Cons show ?case by (blast intro: step_invariant)
qed

lemma invariant_initially: "invariant DocumentManager"
  by (simp add: invariant_def registry_ok_def documents_ok_def DocumentManager_def)

lemma reachable_documents_ok:
  assumes "run ap evs DocumentManager = Inr s" and "documents s k = Some r"
  shows "r < length (objects s) \<and> listener_id (objects s ! r) = k"
proof -
  have "invariant s"
    using invariant_initially assms(1) by (rule run_invariant)
  with assms(2) show ?thesis by (simp add: invariant_def documents_ok_def)
qed

lemma step_registry:
  assumes "step ap ev s = Inr s'"
  shows "\<exists>k. documentDeferreds s' = documentDeferreds s
            \<or> documentDeferreds s' = (documentDeferreds s)(k := None)
            \<or> (documentDeferreds s k = None
                \<and> documentDeferreds s' = (documentDeferreds s)(k \<mapsto> length (promises s)))"
proof (cases ev)
  case (GetDocument k)
  with assms show ?thesis
    by (auto simp: getDocument_def initDocument_def Q_defer_def resetDocument_def
        split: option.splits)
next
  case (ImageChanged c)
  with assms have h: "handleImageChanged ap c s = Inr s'" by simp
  show ?thesis
  proof (cases "falsy (change_id c)")
    case True
    with h show ?thesis by (auto simp: handleImageChanged_def)
  next
    case False
    define k where "k = the (change_id c)"
    define q where "q = (case documentChanges s k of None \<Rightarrow> [] | Some q \<Rightarrow> q) @ [c]"
    let ?s2 = "s\<lparr>documentChanges := (documentChanges s)(k \<mapsto> q)\<rparr>"
    consider (unknown) "documentDeferreds s k = None" "documents s k = None"
      | (queued) "\<not> (documentDeferreds s k = None \<and> documents s k = None)"
          "\<not> (length q = 1 \<and> documentDeferreds s k = None)"
      | (drain) "length q = 1" "documentDeferreds s k = None" "documents s k \<noteq> None"
      by auto
    then show ?thesis
    proof cases
      case unknown
      with False h show ?thesis by (simp add: handleImageChanged_def k_def)
    next
      case queued
      with False h have "s' = ?s2"
        by (auto simp: handleImageChanged_def k_def q_def Let_def split: option.splits)
      then show ?thesis by simp
    next
      case drain
      let ?s3 = "?s2\<lparr>promises := promises s @ [Pending],
                     documentDeferreds := (documentDeferreds s)(k \<mapsto> length (promises s))\<rparr>"
      have "processNextChange ap k ?s3 = Inr s'"
        using False h drain
        by (auto simp: handleImageChanged_def k_def q_def Let_def Q_defer_def
            split: option.splits)
      from processNextChange_frame [OF this]
      have "documentDeferreds s' = (documentDeferreds s)(k \<mapsto> length (promises s))
            \<or> documentDeferreds s' = ((documentDeferreds s)(k \<mapsto> length (promises s)))(k := None)"
        by auto
      then show ?thesis
      proof
        assume "documentDeferreds s' = (documentDeferreds s)(k \<mapsto> length (promises s))"
        with drain(2) show ?thesis by blast
      next
        assume "documentDeferreds s' =
                  ((documentDeferreds s)(k \<mapsto> length (promises s)))(k := None)"
        then have "documentDeferreds s' = (documentDeferreds s)(k := None)" by simp
        then show ?thesis by blast
      qed
    qed
  qed
next
  case (FetchResolved k d)
  show ?thesis
  proof (cases "k \<in> set (fetches s)")
    case True
    let ?s1 = "s\<lparr>fetches := remove1 k (fetches s),
                 objects := objects s @ [\<lparr>listener_id = k, content = d, applied = []\<rparr>],
                 documents := (documents s)(k \<mapsto> length (objects s))\<rparr>"
    have "processNextChange ap k ?s1 = Inr s'"
      using assms FetchResolved True by (simp add: fetch_done_def Let_def)
    from processNextChange_frame [OF this]
    have "documentDeferreds s' = documentDeferreds s
          \<or> documentDeferreds s' = (documentDeferreds s)(k := None)"
      by auto
    then show ?thesis by blast
  next
    case False
    with assms FetchResolved show ?thesis by simp
  qed
next
  case (FetchRejected k err)
  with assms have "documentDeferreds s' = documentDeferreds s"
    by (auto simp: fetch_failed_def Let_def settle_fields split: if_splits option.splits)
  then show ?thesis by simp
next
  case (Closed r)
  with assms show ?thesis
    by (auto simp: closed_listener_maps split: option.splits)
qed

section \<open>The claims\<close>

subsection \<open>C1: a failed request\<close>

text \<open>
  Claim C1 says that the rejection callback of \<open>_resetDocument\<close> rejects the deferred
  of the key with the error and removes it from \<open>_documentDeferreds\<close>, so that a later
  \<open>getDocument\<close> starts a new request. The callback rejects the deferred and leaves it
  in the registry: after \<open>getDocument(7)\<close> and the rejection of the request with
  \<open>timeout\<close>, key 7 still holds deferred 0, which is rejected; \<open>getDocument(7)\<close>
  returns the promise of that deferred, changes nothing and starts no request.
\<close>

theorem fetch_failure_keeps_registry_entry:
  "run counter_apply [GetDocument 7, FetchRejected 7 ''timeout''] DocumentManager = Inr key7_failed
   \<and> documentDeferreds key7_failed 7 = Some 0
   \<and> promises key7_failed ! 0 = Rejected (Some ''timeout'')
   \<and> getDocument 7 key7_failed = (Promise_of 0, key7_failed)
   \<and> fetches key7_failed = []"
  by (simp add: manager_defs key7_failed_def)

subsection \<open>C2: changes delivered one at a time are applied in order\<close>

text \<open>
  Claim C2, as stated, for every key: a key holds a Document, no deferred and an empty
  queue; N changes for it, each of which \<open>_applyChange\<close> applies, are delivered one at
  a time; then \<open>_applyChange\<close> is called N times, in the order of delivery. This fails
  for the key 0: \<open>_handleImageChanged\<close> tests \<open>!id\<close> first, so a change whose
  \<open>id\<close> is 0 is logged and dropped. After \<open>getDocument(0)\<close> and the arrival of the
  Document, one applicable change for key 0 leads to no call of \<open>_applyChange\<close> at
  all, and the content stays 10.
\<close>

theorem key_zero_changes_dropped:
  "run counter_apply [GetDocument 0, FetchResolved 0 10] DocumentManager = Inr key0_ready
   \<and> documents key0_ready 0 = Some 0
   \<and> documentDeferreds key0_ready 0 = None
   \<and> documentChanges key0_ready 0 = Some []
   \<and> change_id (add 0 5) = Some 0
   \<and> apply_all counter_apply (content (objects key0_ready ! 0)) [add 0 5] = Some 15
   \<and> run counter_apply (map ImageChanged [add 0 5]) key0_ready =
       Inr (key0_ready\<lparr>logger := [Warn_unknown_document (add 0 5)]\<rparr>)
   \<and> applied (objects (key0_ready\<lparr>logger := [Warn_unknown_document (add 0 5)]\<rparr>) ! 0) = []
   \<and> content (objects (key0_ready\<lparr>logger := [Warn_unknown_document (add 0 5)]\<rparr>) ! 0) = 10"
  by (simp add: manager_defs key0_ready_def)

text \<open>
  Claim C2, amended to the keys other than 0. Let the key \<open>k \<noteq> 0\<close> hold the Document
  \<open>r\<close>, no deferred and no or an empty queue, and let the changes \<open>cs\<close>, all for \<open>k\<close>,
  apply one after the other to the content of \<open>r\<close>, giving \<open>d'\<close>. Delivering them one
  at a time calls \<open>_applyChange\<close> on \<open>r\<close> with exactly the changes \<open>cs\<close>, in this order
  (the calls recorded in \<open>applied\<close>, and one debug record before each), leaves the
  content \<open>d'\<close>, starts no request, and resolves one deferred per change with \<open>r\<close>.
  Moreover a drain takes the changes from the front of the queue: when the queue starts
  with \<open>cs\<close>, the calls are made for \<open>cs\<close> in order and the drain goes on with what
  follows \<open>cs\<close> in the queue.
\<close>

theorem changes_applied_in_delivery_order:
  assumes "k \<noteq> 0" and "\<forall>c \<in> set cs. change_id c = Some k"
    and "documents s k = Some r" and "r < length (objects s)"
    and "documentDeferreds s k = None"
    and "documentChanges s k = None \<or> documentChanges s k = Some []"
    and "apply_all ap (content (objects s ! r)) cs = Some d'"
  shows "run ap (map ImageChanged cs) s =
           Inr (s\<lparr>documentChanges :=
                    (if cs = [] then documentChanges s else (documentChanges s)(k \<mapsto> [])),
                  logger := logger s @ map Debug_applying cs,
                  objects := (objects s)
                    [r := (objects s ! r)\<lparr>content := d',
                                           applied := applied (objects s ! r) @ cs\<rparr>],
                  promises := promises s @ replicate (length cs) (Fulfilled (Some r))\<rparr>)
         \<and> (\<forall>q p. processNextChange ap k
                (s\<lparr>documentChanges := (documentChanges s)(k \<mapsto> cs @ q),
                   documentDeferreds := (documentDeferreds s)(k \<mapsto> p)\<rparr>) =
              processNextChange ap k
                (s\<lparr>documentChanges := (documentChanges s)(k \<mapsto> q),
                   documentDeferreds := (documentDeferreds s)(k \<mapsto> p),
                   logger := logger s @ map Debug_applying cs,
                   objects := (objects s)
                     [r := (objects s ! r)\<lparr>content := d',
                                            applied := applied (objects s ! r) @ cs\<rparr>]\<rparr>))"
proof (intro conjI allI)
  show "run ap (map ImageChanged cs) s =
           Inr (s\<lparr>documentChanges :=
                    (if cs = [] then documentChanges s else (documentChanges s)(k \<mapsto> [])),
                  logger := logger s @ map Debug_applying cs,
                  objects := (objects s)
                    [r := (objects s ! r)\<lparr>content := d',
                                           applied := applied (objects s ! r) @ cs\<rparr>],
                  promises := promises s @ replicate (length cs) (Fulfilled (Some r))\<rparr>)"
    using assms by (rule one_at_a_time)
next
  fix q p
  let ?s = "s\<lparr>documentChanges := (documentChanges s)(k \<mapsto> cs @ q),
               documentDeferreds := (documentDeferreds s)(k \<mapsto> p)\<rparr>"
  have "processNextChange ap k ?s =
          processNextChange ap k
             (?s\<lparr>documentChanges := (documentChanges ?s)(k \<mapsto> q),
                logger := logger ?s @ map Debug_applying cs,
                objects := (objects ?s)
                  [r := (objects ?s ! r)\<lparr>content := d',
                                         applied := applied (objects ?s ! r) @ cs\<rparr>]\<rparr>)"
    using assms by (intro drain_prefix [where p = p]) simp_all
  also have "(?s\<lparr>documentChanges := (documentChanges ?s)(k \<mapsto> q),
                logger := logger ?s @ map Debug_applying cs,
                objects := (objects ?s)
                  [r := (objects ?s ! r)\<lparr>content := d',
                                         applied := applied (objects ?s ! r) @ cs\<rparr>]\<rparr>) =
                (s\<lparr>documentChanges := (documentChanges s)(k \<mapsto> q),
                   documentDeferreds := (documentDeferreds s)(k \<mapsto> p),
                   logger := logger s @ map Debug_applying cs,
                   objects := (objects s)
                     [r := (objects s ! r)\<lparr>content := d',
                                            applied := applied (objects s ! r) @ cs\<rparr>]\<rparr>)"
    by simp
  finally show "processNextChange ap k ?s =
              processNextChange ap k
                (s\<lparr>documentChanges := (documentChanges s)(k \<mapsto> q),
                   documentDeferreds := (documentDeferreds s)(k \<mapsto> p),
                   logger := logger s @ map Debug_applying cs,
                   objects := (objects s)
                     [r := (objects s ! r)\<lparr>content := d',
                                            applied := applied (objects s ! r) @ cs\<rparr>]\<rparr>)" .
qed

theorem changes_applied_in_delivery_order_witness:
  "(7::int) \<noteq> 0
   \<and> documents key7_ready 7 = Some 0 \<and> 0 < length (objects key7_ready)
   \<and> documentDeferreds key7_ready 7 = None
   \<and> documentChanges key7_ready 7 = Some []
   \<and> apply_all counter_apply (content (objects key7_ready ! 0)) [add 7 1, add 7 2] = Some 13
   \<and> run counter_apply (map ImageChanged [add 7 1, add 7 2]) key7_ready =
       Inr (key7_ready
             \<lparr>documentChanges := (documentChanges key7_ready)(7 \<mapsto> []),
              logger := [Debug_applying (add 7 1), Debug_applying (add 7 2)],
              objects := [\<lparr>listener_id = 7, content = 13, applied = [add 7 1, add 7 2]\<rparr>],
              promises := [Fulfilled (Some 0), Fulfilled (Some 0), Fulfilled (Some 0)]\<rparr>)"
  using changes_applied_in_delivery_order
          [of 7 "[add 7 1, add 7 2]" key7_ready 0 counter_apply 13]
  by (simp add: key7_ready_def add_def counter_apply_def)

subsection \<open>C3: what \<open>getDocument\<close> returns\<close>

text \<open>
  Claim C3: \<open>getDocument\<close> returns the promise of the deferred registered for the key
  when there is one, and changes nothing; otherwise, when the key holds a Document, it
  returns a resolved promise of that Document, and changes nothing; otherwise it makes
  a deferred, registers it, empties the queue, starts one request and returns the new
  promise. A second call made at once returns the same future and changes nothing, and
  when the one request is answered, the shared deferred is resolved with the one new
  Document.
\<close>

theorem getDocument_contract:
  "(documentDeferreds s k = Some p \<longrightarrow> getDocument k s = (Promise_of p, s))
   \<and> (documentDeferreds s k = None \<and> documents s k = Some r \<longrightarrow>
        getDocument k s = (Resolved_with r, s))
   \<and> (documentDeferreds s k = None \<and> documents s k = None \<longrightarrow>
        getDocument k s =
          (Promise_of (length (promises s)),
           s\<lparr>promises := promises s @ [Pending],
             documentDeferreds := (documentDeferreds s)(k \<mapsto> length (promises s)),
             documentChanges := (documentChanges s)(k \<mapsto> []),
             fetches := fetches s @ [k]\<rparr>)
        \<and> run ap [GetDocument k, GetDocument k, FetchResolved k d] s =
            Inr (s\<lparr>promises := promises s @ [Fulfilled (Some (length (objects s)))],
                   documentChanges := (documentChanges s)(k \<mapsto> []),
                   documents := (documents s)(k \<mapsto> length (objects s)),
                   objects := objects s @ [\<lparr>listener_id = k, content = d, applied = []\<rparr>],
                   fetches := remove1 k (fetches s @ [k])\<rparr>))
   \<and> getDocument k (snd (getDocument k s)) = getDocument k s"
  by (auto simp: getDocument_def initDocument_def Q_defer_def resetDocument_def fun_upd_idem
      fetch_done_def processNextChange.simps settle_def nth_append Let_def
      split: option.splits)

theorem getDocument_contract_witness:
  "documentDeferreds key7_fetching 7 = Some 0
   \<and> getDocument 7 key7_fetching = (Promise_of 0, key7_fetching)
   \<and> documentDeferreds key7_ready 7 = None \<and> documents key7_ready 7 = Some 0
   \<and> getDocument 7 key7_ready = (Resolved_with 0, key7_ready)
   \<and> documentDeferreds key7_ready 8 = None \<and> documents key7_ready 8 = None
   \<and> fst (getDocument 8 key7_ready) = Promise_of 1
   \<and> documentDeferreds (snd (getDocument 8 key7_ready)) 8 = Some 1
   \<and> fetches (snd (getDocument 8 key7_ready)) = [8]"
  using getDocument_contract [of key7_fetching 7 0 0 counter_apply 0]
    getDocument_contract [of key7_ready 7 0 0 counter_apply 0]
    getDocument_contract [of key7_ready 8 0 0 counter_apply 0]
  by (simp add: key7_fetching_def key7_ready_def)

subsection \<open>C4: a change that cannot be applied\<close>

text \<open>
  Claim C4: \<open>_applyChange\<close> reports failure partway through a drain. Let the queue of
  key \<open>k\<close> hold \<open>cs\<close>, then \<open>c\<close>, then \<open>rest\<close>, let the pending deferred \<open>p\<close> be
  registered for \<open>k\<close> and let \<open>k\<close> hold the Document \<open>r\<close>; the changes \<open>cs\<close> apply and
  \<open>c\<close> does not. Then \<open>_processNextChange\<close> calls \<open>_applyChange\<close> for \<open>cs\<close> and \<open>c\<close>
  and for nothing of \<open>rest\<close>, starts exactly one request, leaves an empty queue and no
  Document for \<open>k\<close>, and touches neither the registry nor any deferred: \<open>p\<close> stays
  registered and pending. When changes \<open>qs\<close> for \<open>k\<close> arrive while the request is
  outstanding and the request is then fulfilled with a Document to which the queued
  changes apply (for key 0 none is queued), the same deferred \<open>p\<close> is resolved with the
  new Document, which holds the result of applying them, and no further request is
  started.
\<close>

theorem apply_failure_resyncs_and_keeps_deferred:
  assumes "documentChanges s k = Some (cs @ c # rest)"
    and "documentDeferreds s k = Some p"
    and "p < length (promises s)" and "promises s ! p = Pending"
    and "documents s k = Some r" and "r < length (objects s)"
    and "apply_all ap (content (objects s ! r)) cs = Some d1"
    and "\<not> fst (ap d1 c)"
    and "\<forall>c \<in> set qs. change_id c = Some k"
    and "apply_all ap d (if k = 0 then [] else qs) = Some d'"
  shows "\<exists>s1 s2. processNextChange ap k s = Inr s1
           \<and> fetches s1 = fetches s @ [k]
           \<and> documentChanges s1 k = Some []
           \<and> documents s1 k = None
           \<and> documentDeferreds s1 = documentDeferreds s
           \<and> promises s1 = promises s
           \<and> applied (objects s1 ! r) = applied (objects s ! r) @ cs @ [c]
           \<and> run ap (map ImageChanged qs @ [FetchResolved k d]) s1 = Inr s2
           \<and> promises s2 = (promises s)[p := Fulfilled (Some (length (objects s)))]
           \<and> documents s2 k = Some (length (objects s))
           \<and> objects s2 ! length (objects s) =
               \<lparr>listener_id = k, content = d', applied = (if k = 0 then [] else qs)\<rparr>
           \<and> documentDeferreds s2 k = None
           \<and> documentChanges s2 k = Some []
           \<and> fetches s2 = remove1 k (fetches s @ [k])"
proof -
  let ?s1 = "s\<lparr>documentChanges := (documentChanges s)(k \<mapsto> []),
               documents := (documents s)(k := None),
               fetches := fetches s @ [k],
               logger := logger s @ map Debug_applying (cs @ [c]) @ [Warn_unable_to_apply],
               objects := (objects s)
                 [r := (objects s ! r)\<lparr>content := snd (ap d1 c),
                                        applied := applied (objects s ! r) @ cs @ [c]\<rparr>]\<rparr>"
  let ?s2 = "?s1\<lparr>fetches := remove1 k (fetches ?s1),
                documents := (documents ?s1)(k \<mapsto> length (objects ?s1)),
                documentDeferreds := (documentDeferreds ?s1)(k := None),
                documentChanges := (documentChanges ?s1)(k \<mapsto> []),
                promises := (promises ?s1)[p := Fulfilled (Some (length (objects ?s1)))],
                objects := objects ?s1 @
                  [\<lparr>listener_id = k, content = d',
                    applied = (if k = 0 then [] else qs)\<rparr>],
                logger := logger ?s1 @ (if k = 0 then map Warn_unknown_document qs else [])
                  @ map Debug_applying (if k = 0 then [] else qs)\<rparr>"
  have first: "processNextChange ap k s = Inr ?s1"
    using assms(1,2,5,6,7,8) by (rule drain_until_failure)
  have second: "run ap (map ImageChanged qs @ [FetchResolved k d]) ?s1 = Inr ?s2"
    using assms(2,3,4,9,10) by (intro resolves_after_refetch) simp_all
  have "fetches ?s1 = fetches s @ [k]" "documentChanges ?s1 k = Some []"
    "documents ?s1 k = None" "documentDeferreds ?s1 = documentDeferreds s"
    "promises ?s1 = promises s"
    "applied (objects ?s1 ! r) = applied (objects s ! r) @ cs @ [c]"
    "promises ?s2 = (promises s)[p := Fulfilled (Some (length (objects s)))]"
    "documents ?s2 k = Some (length (objects s))"
    "objects ?s2 ! length (objects s) =
       \<lparr>listener_id = k, content = d', applied = (if k = 0 then [] else qs)\<rparr>"
    "documentDeferreds ?s2 k = None" "documentChanges ?s2 k = Some []"
    "fetches ?s2 = remove1 k (fetches s @ [k])"
    using assms(6) by (simp_all add: nth_append)
  with first second show ?thesis by blast
qed

theorem apply_failure_resyncs_and_keeps_deferred_witness:
  "documentChanges key7_draining 7 = Some ([add 7 1] @ add 7 (- 1) # [add 7 3])
   \<and> documentDeferreds key7_draining 7 = Some 0
   \<and> promises key7_draining ! 0 = Pending
   \<and> documents key7_draining 7 = Some 0
   \<and> apply_all counter_apply (content (objects key7_draining ! 0)) [add 7 1] = Some 11
   \<and> \<not> fst (counter_apply 11 (add 7 (- 1)))
   \<and> apply_all counter_apply 20 [add 7 4] = Some 24
   \<and> (\<exists>s1 s2. processNextChange counter_apply 7 key7_draining = Inr s1
         \<and> fetches s1 = [7]
         \<and> documentChanges s1 7 = Some []
         \<and> documents s1 7 = None
         \<and> documentDeferreds s1 = documentDeferreds key7_draining
         \<and> promises s1 = [Pending]
         \<and> applied (objects s1 ! 0) = [add 7 1, add 7 (- 1)]
         \<and> run counter_apply [ImageChanged (add 7 4), FetchResolved 7 20] s1 = Inr s2
         \<and> promises s2 = [Fulfilled (Some 1)]
         \<and> documents s2 7 = Some 1
         \<and> objects s2 ! 1 = \<lparr>listener_id = 7, content = 24, applied = [add 7 4]\<rparr>
         \<and> documentDeferreds s2 7 = None
         \<and> documentChanges s2 7 = Some []
         \<and> fetches s2 = [])"
  using apply_failure_resyncs_and_keeps_deferred
    [of key7_draining 7 "[add 7 1]" "add 7 (- 1)" "[add 7 3]" 0 0 counter_apply 11
        "[add 7 4]" 20 24]
  by (simp add: key7_draining_def add_def counter_apply_def)

subsection \<open>C5: the Document of a key emits \<open>closed\<close>\<close>

text \<open>
  Claim C5: the Document \<open>r\<close> that key \<open>k\<close> holds emits \<open>closed\<close>. Its listener is the
  one bound to \<open>k\<close>: in every state the manager reaches, the Document a key holds
  exists and has its listener bound to that key (\<open>reachable_documents_ok\<close>). The
  listener deletes the Document and the queue of \<open>k\<close>; a deferred registered for \<open>k\<close>
  is rejected, if it was pending, and deleted from the registry. A call of
  \<open>getDocument\<close> for \<open>k\<close> made next finds neither Document nor deferred and starts
  over: it makes a new pending deferred, registers it, creates an empty queue and starts
  a request.
\<close>

theorem closed_clears_key_and_next_call_refetches:
  assumes "documents s k = Some r" and "r < length (objects s)"
    and "listener_id (objects s ! r) = k"
  shows "step ap (Closed r) s = Inr (closed_listener k s)
         \<and> documents (closed_listener k s) k = None
         \<and> documentChanges (closed_listener k s) k = None
         \<and> documentDeferreds (closed_listener k s) k = None
         \<and> (\<forall>p. documentDeferreds s k = Some p \<and> p < length (promises s)
                  \<and> promises s ! p = Pending \<longrightarrow>
                promises (closed_listener k s) = (promises s)[p := Rejected None])
         \<and> (documentDeferreds s k = None \<longrightarrow> promises (closed_listener k s) = promises s)
         \<and> getDocument k (closed_listener k s) =
             (Promise_of (length (promises s)),
              (closed_listener k s)
                \<lparr>promises := promises (closed_listener k s) @ [Pending],
                 documentDeferreds :=
                   (documentDeferreds (closed_listener k s))(k \<mapsto> length (promises s)),
                 documentChanges := (documentChanges (closed_listener k s))(k \<mapsto> []),
                 fetches := fetches s @ [k]\<rparr>)"
proof -
  let ?s1 = "closed_listener k s"
  have len: "length (promises ?s1) = length (promises s)"
    by (simp add: closed_listener_promises split: option.splits)
  have "getDocument k ?s1 =
          (Promise_of (length (promises ?s1)),
           ?s1\<lparr>promises := promises ?s1 @ [Pending],
               documentDeferreds := (documentDeferreds ?s1)(k \<mapsto> length (promises ?s1)),
               documentChanges := (documentChanges ?s1)(k \<mapsto> []),
               fetches := fetches ?s1 @ [k]\<rparr>)"
    by (simp add: getDocument_def initDocument_def Q_defer_def resetDocument_def
        closed_listener_clears fun_upd_idem)
  then have get: "getDocument k ?s1 =
          (Promise_of (length (promises s)),
           ?s1\<lparr>promises := promises ?s1 @ [Pending],
               documentDeferreds := (documentDeferreds ?s1)(k \<mapsto> length (promises s)),
               documentChanges := (documentChanges ?s1)(k \<mapsto> []),
               fetches := fetches s @ [k]\<rparr>)"
    by (simp only: len closed_listener_clears)
  have ev: "step ap (Closed r) s = Inr ?s1"
    using assms by (simp add: deref_def)
  show ?thesis
    using ev get by (simp add: closed_listener_clears closed_listener_promises)
qed

theorem closed_clears_key_and_next_call_refetches_witness:
  "documents key7_ready 7 = Some 0 \<and> 0 < length (objects key7_ready)
   \<and> listener_id (objects key7_ready ! 0) = 7
   \<and> step counter_apply (Closed 0) key7_ready = Inr (closed_listener 7 key7_ready)
   \<and> documents (closed_listener 7 key7_ready) 7 = None
   \<and> documentChanges (closed_listener 7 key7_ready) 7 = None
   \<and> fst (getDocument 7 (closed_listener 7 key7_ready)) = Promise_of 1
   \<and> fetches (snd (getDocument 7 (closed_listener 7 key7_ready))) = [7]
   \<and> documents key7_draining 7 = Some 0 \<and> documentDeferreds key7_draining 7 = Some 0
   \<and> promises key7_draining ! 0 = Pending
   \<and> promises (closed_listener 7 key7_draining) = [Rejected None]
   \<and> documentDeferreds (closed_listener 7 key7_draining) 7 = None"
  using closed_clears_key_and_next_call_refetches [of key7_ready 7 0 counter_apply]
    closed_clears_key_and_next_call_refetches [of key7_draining 7 0 counter_apply]
  by (simp add: key7_ready_def key7_draining_def)

subsection \<open>C6: \<open>closed\<close> while a request is outstanding\<close>

text \<open>
  Claim C6: when \<open>closed\<close> arrives for a key while a request for it is outstanding,
  the pending deferred is rejected and the answer of the request is ignored, so that the
  key never holds a Document again because of it. The code rejects the deferred and
  then misses the second half: the fulfilment callback of \<open>_resetDocument\<close> stores the
  new Document before \<open>_processNextChange\<close> tests whether the document was closed.
  After \<open>getDocument(7)\<close>, the arrival of the Document, a change that cannot be applied
  and \<open>closed\<close> from the replaced Document, the request is outstanding, deferred 1 is
  rejected and key 7 holds no Document; when the request is fulfilled, key 7 holds the
  new Document 1.
\<close>

theorem late_fetch_result_repopulates_closed_key:
  "run counter_apply
     [GetDocument 7, FetchResolved 7 10, ImageChanged (add 7 (- 1)), Closed 0]
     DocumentManager = Inr key7_closed
   \<and> fetches key7_closed = [7]
   \<and> promises key7_closed ! 1 = Rejected None
   \<and> documents key7_closed 7 = None
   \<and> run counter_apply [FetchResolved 7 20] key7_closed =
       Inr (key7_closed
             \<lparr>fetches := [],
              objects := objects key7_closed @ [\<lparr>listener_id = 7, content = 20, applied = []\<rparr>],
              documents := [7 \<mapsto> 1]\<rparr>)
   \<and> documents
        (key7_closed
          \<lparr>fetches := [],
           objects := objects key7_closed @ [\<lparr>listener_id = 7, content = 20, applied = []\<rparr>],
           documents := [7 \<mapsto> 1]\<rparr>) 7 = Some 1"
  by (simp add: manager_defs key7_closed_def)

subsection \<open>C7: one deferred per key\<close>

text \<open>
  Claim C7: in every state the manager reaches from its initial state, by any events,
  every deferred that is still pending is the registry entry of exactly one key; the
  registry holds one entry per key at most, so no key has two pending deferreds. And
  whatever event comes next (\<open>getDocument\<close>, a change with the drain it starts, the
  answer of a request with its drain, \<open>closed\<close>), a key gets a registry entry it did not
  have before only if it had none, and the entry is a deferred made by this reaction.
\<close>

theorem one_pending_request_per_key:
  assumes "run ap evs DocumentManager = Inr s"
  shows "(\<forall>p < length (promises s).
            promises s ! p = Pending \<longrightarrow> (\<exists>!k. documentDeferreds s k = Some p))
         \<and> (\<forall>ev s' k p. step ap ev s = Inr s' \<and> documentDeferreds s' k = Some p
                \<and> documentDeferreds s k \<noteq> Some p \<longrightarrow>
              documentDeferreds s k = None \<and> p = length (promises s))"
proof -
  have "invariant s"
    using invariant_initially assms by (rule run_invariant)
  then have reg: "registry_ok (documentDeferreds s) (promises s)"
    by (simp add: invariant_def)
  have one: "\<exists>!k. documentDeferreds s k = Some p"
    if p: "p < length (promises s)" "promises s ! p = Pending" for p
  proof -
    from reg p obtain k where k: "documentDeferreds s k = Some p"
      by (auto simp: registry_ok_def)
    moreover have "k' = k" if "documentDeferreds s k' = Some p" for k'
      using reg k that by (auto simp: registry_ok_def)
    ultimately show ?thesis by blast
  qed
  have fresh: "documentDeferreds s k = None \<and> p = length (promises s)"
    if a: "step ap ev s = Inr s'" "documentDeferreds s' k = Some p"
      "documentDeferreds s k \<noteq> Some p" for ev s' k p
  proof -
    from a(1) obtain k0 where "documentDeferreds s' = documentDeferreds s
            \<or> documentDeferreds s' = (documentDeferreds s)(k0 := None)
            \<or> (documentDeferreds s k0 = None
                \<and> documentDeferreds s' = (documentDeferreds s)(k0 \<mapsto> length (promises s)))"
      using step_registry by blast
    with a(2,3) show ?thesis
      by (auto split: if_splits)
  qed
  from one fresh show ?thesis by blast
qed

theorem one_pending_request_per_key_witness:
  "run counter_apply [GetDocument 7] DocumentManager = Inr key7_fetching
   \<and> promises key7_fetching ! 0 = Pending
   \<and> (\<exists>!k. documentDeferreds key7_fetching k = Some 0)
   \<and> step counter_apply (GetDocument 8) key7_fetching
       = Inr (snd (getDocument 8 key7_fetching))
   \<and> documentDeferreds (snd (getDocument 8 key7_fetching)) 8 = Some 1
   \<and> documentDeferreds key7_fetching 8 = None"
  using one_pending_request_per_key [OF key7_fetching_reached]
  by (simp add: key7_fetching_def getDocument_def initDocument_def Q_defer_def
      resetDocument_def DocumentManager_def)

subsection \<open>C8: changes for a key nobody asked for\<close>

text \<open>
  Claim C8: when a key holds neither a Document nor a deferred, \<open>_handleImageChanged\<close>
  drops a change for that key: the three dictionaries, the deferreds, the Documents and
  the outstanding requests stay as they are. The state is unchanged altogether, but for
  key 0, where the warning of the falsy \<open>id\<close> is logged.
\<close>

theorem change_for_unknown_key_dropped:
  assumes "change_id c = Some k" and "documents s k = None" and "documentDeferreds s k = None"
  shows "handleImageChanged ap c s =
           Inr (if k = 0 then s\<lparr>logger := logger s @ [Warn_unknown_document c]\<rparr> else s)"
  using assms by (simp add: handleImageChanged_def)

theorem change_for_unknown_key_dropped_witness:
  "change_id (add 7 1) = Some 7 \<and> documents key0_ready 7 = None
   \<and> documentDeferreds key0_ready 7 = None
   \<and> handleImageChanged counter_apply (add 7 1) key0_ready = Inr key0_ready"
  using change_for_unknown_key_dropped [of "add 7 1" 7 key0_ready counter_apply]
  by (simp add: add_def key0_ready_def)

subsection \<open>C9: a falsy \<open>id\<close>\<close>

text \<open>
  Claim C9: \<open>_handleImageChanged\<close> treats a change whose \<open>id\<close> is absent or is the number
  0 as malformed: it logs the warning and touches nothing else, whatever the state
  holds for key 0.
\<close>

theorem falsy_id_logged_and_dropped:
  assumes "change_id c = None \<or> change_id c = Some 0"
  shows "handleImageChanged ap c s = Inr (s\<lparr>logger := logger s @ [Warn_unknown_document c]\<rparr>)"
  using assms by (auto simp: handleImageChanged_def)

theorem falsy_id_logged_and_dropped_witness:
  "change_id (add 0 5) = Some 0
   \<and> documents key0_ready 0 = Some 0
   \<and> handleImageChanged counter_apply (add 0 5) key0_ready =
       Inr (key0_ready\<lparr>logger := logger key0_ready @ [Warn_unknown_document (add 0 5)]\<rparr>)"
  using falsy_id_logged_and_dropped [of "add 0 5" counter_apply key0_ready]
  by (simp add: add_def key0_ready_def)

subsection \<open>C10: the rejection callback reads the registry without a test\<close>

text \<open>
  Claim C10 says that a deferred is registered for the key whenever its request is
  rejected, also when \<open>closed\<close> was emitted for the key while the request was
  outstanding. The listener of \<open>closed\<close> deletes the deferred, and
  \<open>_resetDocument\<close> does not remove the listener of the Document it replaces: after
  \<open>getDocument(7)\<close>, the arrival of the Document, a change that cannot be applied (a new
  request is started) and \<open>closed\<close> from the replaced Document, the request is
  outstanding and key 7 has no deferred; rejecting the request then throws a TypeError.
\<close>

theorem fetch_failure_after_closed_throws:
  "run counter_apply
     [GetDocument 7, FetchResolved 7 10, ImageChanged (add 7 (- 1)), Closed 0]
     DocumentManager = Inr key7_closed
   \<and> fetches key7_closed = [7]
   \<and> documentDeferreds key7_closed 7 = None
   \<and> run counter_apply [FetchRejected 7 ''timeout''] key7_closed = Inl TypeError"
  by (simp add: manager_defs key7_closed_def)

end
